theory Spec2Isabelle
  imports Main "HOL-Library.Sublist"
begin

section \<open>The bootstrap script as a sequence of effects\<close>

text \<open>
  \<^verbatim>\<open>bootstrap.mjs\<close> is a straight-line zx script: ten async functions, each a fixed
  sequence of awaited shell commands and synchronous file-system calls, called one after
  the other with \<^verbatim>\<open>await\<close> at top level. Nothing is caught. The model keeps every effect
  of the script as a value of type \<open>action\<close>, each function body as the list of its
  effects in program order, and runs such a list against a world that can make any
  effect fail.
\<close>

subsection \<open>Values written by the script\<close>

datatype json =
    JString string
  | JBool bool
  | JArray "json list"
  | JObject "(string \<times> json) list"

text \<open>
  \<open>Text\<close> is the data of \<^verbatim>\<open>fs.writeFileSync\<close>; \<open>Json obj n\<close> is the object and the
  \<^verbatim>\<open>spaces\<close> option of \<^verbatim>\<open>fs.writeJSONSync\<close>.
\<close>

datatype content = Text string | Json json nat

text \<open>
  A zx command is a tagged template: literal text with interpolated values. A string
  value is one shell word, an array value is one word per element.
\<close>

datatype piece = Lit string | Arg string | Args "string list"

type_synonym command = "piece list"

datatype action =
    PrintStep string
  | Shell command
  | MkdirSync string
  | Cd string
  | EnsureFileSync string
  | WriteFileSync string string
  | WriteJSONSync string json nat

datatype error = ProcessOutput nat | FsError string

subsection \<open>Paths and the file system\<close>

type_synonym path = "string list"

datatype node = Dir | File content bool

type_synonym fsys = "path \<rightharpoonup> node"

fun components :: "string \<Rightarrow> string list" where
  "components [] = [[]]"
| "components (c # cs) =
     (if c = CHR ''/'' then [] # components cs
      else (case components cs of [] \<Rightarrow> [[c]] | x # xs \<Rightarrow> (c # x) # xs))"

definition enter :: "path \<Rightarrow> string \<Rightarrow> path" where
  "enter d c = (if c = [] \<or> c = ''.'' then d else if c = ''..'' then butlast d else d @ [c])"

definition resolve :: "path \<Rightarrow> string \<Rightarrow> path" where
  "resolve d p = foldl enter (if take 1 p = ''/'' then [] else d) (components p)"

definition is_dir :: "fsys \<Rightarrow> path \<Rightarrow> bool" where
  "is_dir fs p = (p = [] \<or> fs p = Some Dir)"

definition is_file :: "fsys \<Rightarrow> path \<Rightarrow> bool" where
  "is_file fs p = (case fs p of Some (File c x) \<Rightarrow> True | _ \<Rightarrow> False)"

definition mkdirSync :: "path \<Rightarrow> fsys \<Rightarrow> string + fsys" where
  "mkdirSync p fs =
     (if p = [] then Inl ''EEXIST''
      else if fs p = None then
        (if is_dir fs (butlast p) then Inr (fs(p \<mapsto> Dir)) else Inl ''ENOENT'')
      else Inl ''EEXIST'')"

definition put_file :: "path \<Rightarrow> content \<Rightarrow> fsys \<Rightarrow> string + fsys" where
  "put_file p c fs =
     (if is_dir fs p then Inl ''EISDIR''
      else if is_dir fs (butlast p)
      then Inr (fs(p \<mapsto> File c (case fs p of Some (File c' x) \<Rightarrow> x | _ \<Rightarrow> False)))
      else Inl ''ENOENT'')"

text \<open>Recursive directory creation, as fs-extra's \<^verbatim>\<open>mkdirsSync\<close>.\<close>

definition mkdirs :: "path \<Rightarrow> fsys \<Rightarrow> string + fsys" where
  "mkdirs p fs =
     (if list_ex (is_file fs) (prefixes p) then Inl ''ENOTDIR''
      else Inr (\<lambda>q. if fs q = None \<and> prefix q p then (if q = [] then None else Some Dir) else fs q))"

text \<open>
  fs-extra's \<^verbatim>\<open>ensureFileSync\<close>: nothing to do for an existing file; otherwise the
  parent directories are created as needed and an empty file is written.
\<close>

definition ensureFileSync :: "path \<Rightarrow> fsys \<Rightarrow> string + fsys" where
  "ensureFileSync p fs =
     (if is_file fs p then Inr fs
      else if is_dir fs (butlast p) then put_file p (Text []) fs
      else if fs (butlast p) = None then
        (case mkdirs (butlast p) fs of
           Inl e \<Rightarrow> Inl e
         | Inr fs' \<Rightarrow> put_file p (Text []) fs')
      else Inl ''ENOTDIR'')"

definition rm_rf :: "path \<Rightarrow> fsys \<Rightarrow> fsys" where
  "rm_rf p fs = (\<lambda>q. if prefix p q then None else fs q)"

definition chmod_ax :: "path \<Rightarrow> fsys \<Rightarrow> fsys" where
  "chmod_ax p fs = (case fs p of Some (File c x) \<Rightarrow> fs(p \<mapsto> File c True) | _ \<Rightarrow> fs)"

subsection \<open>The world outside the script\<close>

text \<open>
  Everything the script does not decide is a parameter: the exit code of each spawned
  process and the failure of each file-system call (both may depend on what has been
  attempted so far), and what the package manager, git and the hook installer do to the
  file system when they succeed.
\<close>

record env =
  exit_code :: "action list \<Rightarrow> command \<Rightarrow> nat"
  fs_fault :: "action list \<Rightarrow> action \<Rightarrow> string option"
  tool :: "command \<Rightarrow> path \<Rightarrow> fsys \<Rightarrow> fsys"

record world =
  cwd :: path
  fsys :: fsys
  trace :: "action list"

datatype outcome = Ok world | Threw error world

fun succeeded :: "outcome \<Rightarrow> bool" where
  "succeeded (Ok w) = True"
| "succeeded (Threw e w) = False"

fun final :: "outcome \<Rightarrow> world" where
  "final (Ok w) = w"
| "final (Threw e w) = w"

text \<open>
  The script installs no handler, so a rejected top-level \<^verbatim>\<open>await\<close> ends the process
  with status 1; a script that runs to its end exits with status 0.
\<close>

definition exit_status :: "outcome \<Rightarrow> nat" where
  "exit_status r = (case r of Ok w \<Rightarrow> 0 | Threw e w \<Rightarrow> 1)"

subsection \<open>Performing one effect\<close>

text \<open>
  Two shell commands of the script act on files the script itself manages and are
  given their POSIX meaning: \<^verbatim>\<open>rm -rf ./X\<close> removes the tree at \<^verbatim>\<open>./X\<close>, and
  \<^verbatim>\<open>chmod a+x P\<close> sets the executable bits of the file \<^verbatim>\<open>P\<close>. Every other command
  is left to \<open>tool\<close>.
\<close>

fun shell_effect :: "env \<Rightarrow> command \<Rightarrow> path \<Rightarrow> fsys \<Rightarrow> fsys" where
  "shell_effect E [Lit l, Arg a] d fs =
     (if l = ''rm -rf ./'' then rm_rf (resolve d (''./'' @ a)) fs
      else tool E [Lit l, Arg a] d fs)"
| "shell_effect E [Lit l] d fs =
     (if take 10 l = ''chmod a+x '' then chmod_ax (resolve d (drop 10 l)) fs
      else tool E [Lit l] d fs)"
| "shell_effect E c d fs = tool E c d fs"

definition attempt :: "action \<Rightarrow> world \<Rightarrow> world" where
  "attempt a w = w\<lparr>trace := trace w @ [a]\<rparr>"

definition fs_call :: "env \<Rightarrow> action \<Rightarrow> world \<Rightarrow> string + fsys \<Rightarrow> outcome" where
  "fs_call E a w r =
     (case fs_fault E (trace w) a of
        Some e \<Rightarrow> Threw (FsError e) (attempt a w)
      | None \<Rightarrow>
          (case r of
             Inl e \<Rightarrow> Threw (FsError e) (attempt a w)
           | Inr fs' \<Rightarrow> Ok ((attempt a w)\<lparr>fsys := fs'\<rparr>)))"

text \<open>
  Modelled from the spec: \<^verbatim>\<open>printStep\<close> comes from \<^verbatim>\<open>utils/steps.mjs\<close>, which is not
  part of the sources at hand; the spec says it prints a human-readable status line. It
  is recorded in the trace and cannot fail.
\<close>

fun perform :: "env \<Rightarrow> action \<Rightarrow> world \<Rightarrow> outcome" where
  "perform E (PrintStep s) w = Ok (attempt (PrintStep s) w)"
| "perform E (Shell c) w =
     (if exit_code E (trace w) c = 0
      then Ok ((attempt (Shell c) w)\<lparr>fsys := shell_effect E c (cwd w) (fsys w)\<rparr>)
      else Threw (ProcessOutput (exit_code E (trace w) c)) (attempt (Shell c) w))"
| "perform E (MkdirSync p) w =
     fs_call E (MkdirSync p) w (mkdirSync (resolve (cwd w) p) (fsys w))"
| "perform E (Cd p) w =
     (case fs_fault E (trace w) (Cd p) of
        Some e \<Rightarrow> Threw (FsError e) (attempt (Cd p) w)
      | None \<Rightarrow>
          (if is_dir (fsys w) (resolve (cwd w) p)
           then Ok ((attempt (Cd p) w)\<lparr>cwd := resolve (cwd w) p\<rparr>)
           else Threw (FsError ''ENOENT'') (attempt (Cd p) w)))"
| "perform E (EnsureFileSync p) w =
     fs_call E (EnsureFileSync p) w (ensureFileSync (resolve (cwd w) p) (fsys w))"
| "perform E (WriteFileSync p s) w =
     fs_call E (WriteFileSync p s) w (put_file (resolve (cwd w) p) (Text s) (fsys w))"
| "perform E (WriteJSONSync p j n) w =
     fs_call E (WriteJSONSync p j n) w (put_file (resolve (cwd w) p) (Json j n) (fsys w))"

text \<open>Statements run in order; the first one that throws ends the function.\<close>

fun run_actions :: "env \<Rightarrow> action list \<Rightarrow> world \<Rightarrow> outcome" where
  "run_actions E [] w = Ok w"
| "run_actions E (a # as) w =
     (case perform E a w of
        Ok w' \<Rightarrow> run_actions E as w'
      | Threw e w' \<Rightarrow> Threw e w')"

fun run_stages :: "env \<Rightarrow> action list list \<Rightarrow> world \<Rightarrow> outcome" where
  "run_stages E [] w = Ok w"
| "run_stages E (s # ss) w =
     (case run_actions E s w of
        Ok w' \<Rightarrow> run_stages E ss w'
      | Threw e w' \<Rightarrow> Threw e w')"

subsection \<open>The ten functions of the script\<close>

definition nl :: string where
  "nl = [CHR 0x0A]"

fun text_lines :: "string list \<Rightarrow> string" where
  "text_lines [] = []"
| "text_lines [l] = l"
| "text_lines (l # ls) = l @ nl @ text_lines ls"

text \<open>
  \<open>PROJECT_FOLDER\<close> is imported from \<^verbatim>\<open>utils/env.mjs\<close>, which is not part of the sources
  at hand; it is a parameter of the model.
\<close>

definition prepare :: "string \<Rightarrow> action list" where
  "prepare PROJECT_FOLDER =
    [PrintStep ''Preparing ...'',
     Shell [Lit ''rm -rf ./'', Arg PROJECT_FOLDER],
     MkdirSync (''./'' @ PROJECT_FOLDER),
     Cd (''./'' @ PROJECT_FOLDER),
     Shell [Lit ''npm init -y''],
     Shell [Lit ''git init''],
     WriteFileSync ''.gitignore'' ''node_modules'']"

definition devDependencies :: "string list" where
  "devDependencies =
    [''@commitlint/cli'',
     ''@commitlint/config-conventional'',
     ''@semantic-release/changelog'',
     ''@semantic-release/git'',
     ''@types/jest'',
     ''cspell'',
     ''eslint-config-airbnb-base@latest'',
     ''eslint-config-prettier'',
     ''eslint-plugin-import@^2.25.2'',
     ''eslint-plugin-markdownlint'',
     ''eslint-plugin-prettier'',
     ''eslint@^8.2.0'',
     ''husky'',
     ''imagemin-lint-staged'',
     ''jest'',
     ''lint-staged'',
     ''markdownlint'',
     ''markdownlint-cli'',
     ''nodemon'',
     ''prettier'',
     ''semantic-release'']"

definition installDependencies :: "action list" where
  "installDependencies =
    [PrintStep ''Installing dependencies...'',
     Shell [Lit ''npm install --save-dev '', Args devDependencies]]"

definition prepareHusky :: "action list" where
  "prepareHusky =
    [PrintStep ''Setting up semantic-release...'',
     Shell [Lit ''npx --no-install husky install'']]"

definition cspell_json :: json where
  "cspell_json = JObject
    [(''ignorePaths'', JArray [JString ''node_modules'']),
     (''words'', JArray
        [JString ''commitlint'',
         JString ''imagemin'',
         JString ''markdownlint'',
         JString ''parens'',
         JString ''postcss'',
         JString ''stylelint''])]"

definition prepareSpellChecker :: "action list" where
  "prepareSpellChecker =
    [PrintStep ''Setting up cSpell ...'',
     EnsureFileSync ''./cspell.json'',
     WriteJSONSync ''./cspell.json'' cspell_json 2]"

definition commitlint_config :: string where
  \<open>commitlint_config = text_lines
    [''module.exports = {'',
     ''  extends: ['@commitlint/config-conventional'],'',
     ''  rules: {'',
     ''    'references-empty': [2, 'never'],'',
     ''  },'',
     ''};'']\<close>

definition commit_msg_hook :: string where
  \<open>commit_msg_hook = text_lines
    [''#!/bin/sh'',
     ''. "$(dirname "$0")/_/husky.sh"'',
     '''',
     ''npx --no -- commitlint --edit "${1}"'',
     ''npx --no -- cspell --no-summary --no-progress "${1}"'']\<close>

definition prepareCommitLint :: "action list" where
  "prepareCommitLint =
    [PrintStep ''Setting up commitlint...'',
     EnsureFileSync ''commitlint.config.js'',
     WriteFileSync ''commitlint.config.js'' commitlint_config,
     EnsureFileSync ''./.husky/commit-msg'',
     WriteFileSync ''./.husky/commit-msg'' commit_msg_hook,
     Shell [Lit ''chmod a+x ./.husky/commit-msg'']]"

definition eslintrc :: string where
  \<open>eslintrc = text_lines
    [''module.exports = {'',
     ''  env: {'',
     ''    commonjs: true,'',
     ''    es2021: true,'',
     ''    jest: true,'',
     ''    node: true,'',
     ''  },'',
     ''  extends: ["airbnb-base"],'',
     ''  overrides: ['',
     ''    {'',
     ''      files: ["*.md"],'',
     ''      parser: "eslint-plugin-markdownlint/parser",'',
     ''      extends: ["plugin:markdownlint/recommended"]'',
     ''    }'',
     ''  ],'',
     ''  parserOptions: {'',
     ''    ecmaVersion: "latest",'',
     ''  },'',
     ''  rules: {},'',
     ''};'']\<close>

definition eslintignore :: string where
  "eslintignore = text_lines
    [''coverage/*'',
     ''node_modules/*'',
     ''build/*'',
     ''.eslintrc.js'',
     '''']"

definition prepareLinter :: "action list" where
  "prepareLinter =
    [PrintStep ''Setting up eslint + airbnb ...'',
     EnsureFileSync ''./.eslintrc.js'',
     WriteFileSync ''./.eslintrc.js'' eslintrc,
     EnsureFileSync ''./.eslintignore'',
     WriteFileSync ''./.eslintignore'' eslintignore]"

definition prettierrc :: string where
  \<open>prettierrc = text_lines
    [''{'',
     ''  "arrowParens": "always",'',
     ''  "printWidth": 80,'',
     ''  "proseWrap": "preserve",'',
     ''  "semi": true,'',
     ''  "singleQuote": true,'',
     ''  "trailingComma": "es5"'',
     ''}'',
     ''  '']\<close>

definition prepareFormatter :: "action list" where
  "prepareFormatter =
    [PrintStep ''Setting up prettier...'',
     EnsureFileSync ''./.prettierrc'',
     WriteFileSync ''./.prettierrc'' prettierrc,
     EnsureFileSync ''./.prettierignore'',
     WriteFileSync ''./.prettierignore'' ''node_modules/**'']"

definition lintstagedrc :: json where
  "lintstagedrc = JObject
    [(''*'', JString ''cspell --no-summary --no-progress''),
     (''*.md'', JString ''markdownlint --fix --ignore CHANGELOG.md''),
     (''*.{js,jsx,ts,tsx,html,css}'', JArray [JString ''prettier --write'', JString ''eslint --fix'']),
     (''*.{png,jpeg,jpg,gif,svg}'', JString ''imagemin-lint-staged''),
     (''*.scss'', JArray [JString ''postcss --config path/to/your/config --replace'', JString ''stylelint''])]"

definition pre_commit_hook :: string where
  \<open>pre_commit_hook = text_lines
    [''#!/usr/bin/env sh'',
     ''. "$(dirname "$0")/_/husky.sh"'',
     '''',
     ''npx lint-staged'']\<close>

definition prepareLintStaged :: "action list" where
  "prepareLintStaged =
    [PrintStep ''Setting up prettier...'',
     EnsureFileSync ''./.lintstagedrc'',
     WriteJSONSync ''./.lintstagedrc'' lintstagedrc 2,
     EnsureFileSync ''./.husky/pre-commit'',
     WriteFileSync ''./.husky/pre-commit'' pre_commit_hook,
     Shell [Lit ''chmod a+x ./.husky/pre-commit'']]"

definition releaserc :: json where
  "releaserc = JObject
    [(''ci'', JBool False),
     (''branches'', JArray [JString ''master'']),
     (''plugins'', JArray
        [JString ''@semantic-release/commit-analyzer'',
         JString ''@semantic-release/release-notes-generator'',
         JString ''@semantic-release/changelog'',
         JArray
           [JString ''@semantic-release/git'',
            JObject [(''message'', JString ''chore(release): ${nextRelease.version}'')]]]),
     (''repositoryUrl'', JString ''REPLACE ME'')]"

definition prepareSemanticRelease :: "action list" where
  \<open>prepareSemanticRelease =
    [PrintStep ''Setting up semantic release ...'',
     WriteJSONSync ''.releaserc.json'' releaserc 2,
     Shell [Lit ''npm set-script release "semantic-release"''],
     Shell [Lit ''npm set-script "release:dry" "semantic-release --dry-run"'']]\<close>

definition jest_config :: string where
  \<open>jest_config = text_lines
    [''/*'',
     ''  * For a detailed explanation regarding each configuration property, visit:'',
     ''  * https://jestjs.io/docs/configuration'',
     ''*/'',
     '''',
     ''module.exports = {'',
     ''  clearMocks: true,'',
     ''  collectCoverage: true,'',
     ''  coverageDirectory: 'coverage','',
     ''  coverageProvider: 'v8','',
     ''};'',
     '''']\<close>

definition prepareTest :: "action list" where
  \<open>prepareTest =
    [PrintStep ''Setting up semantic jest ...'',
     EnsureFileSync ''./jest.config.js'',
     WriteFileSync ''./jest.config.js'' jest_config,
     Shell [Lit ''npm set-script test "jest"'']]\<close>

text \<open>The top level of the script: ten awaited calls.\<close>

definition pipeline :: "string \<Rightarrow> action list list" where
  "pipeline PROJECT_FOLDER =
    [prepare PROJECT_FOLDER,
     installDependencies,
     prepareHusky,
     prepareSpellChecker,
     prepareCommitLint,
     prepareLinter,
     prepareFormatter,
     prepareLintStaged,
     prepareSemanticRelease,
     prepareTest]"

definition bootstrap :: "env \<Rightarrow> string \<Rightarrow> world \<Rightarrow> outcome" where
  "bootstrap E PROJECT_FOLDER w = run_stages E (pipeline PROJECT_FOLDER) w"

subsection \<open>The process around the script\<close>

record process_ctx =
  argv :: "string list"
  environ :: "string \<rightharpoonup> string"

text \<open>
  Modelled from the spec: \<^verbatim>\<open>utils/env.mjs\<close>, which exports \<open>PROJECT_FOLDER\<close>, is not part of
  the sources at hand. The spec says that the tool takes no arguments and no flags and
  that no environment variable is consulted, so the exported name is fixed, whatever
  the command line and the environment of the process are.
\<close>

definition PROJECT_FOLDER :: "string \<Rightarrow> process_ctx \<Rightarrow> string" where
  "PROJECT_FOLDER name ctx = name"


subsection \<open>Observations on a run\<close>

text \<open>The effects attempted by one run, in order.\<close>

definition run_effects :: "env \<Rightarrow> string \<Rightarrow> world \<Rightarrow> action list" where
  "run_effects E F w = drop (length (trace w)) (trace (final (bootstrap E F w)))"

text \<open>The world in which stage \<open>n\<close> (counted from 0) starts.\<close>

definition before_stage :: "env \<Rightarrow> string \<Rightarrow> world \<Rightarrow> nat \<Rightarrow> outcome" where
  "before_stage E F w n = run_stages E (take n (pipeline F)) w"






fun installs :: "action \<Rightarrow> bool" where
  "installs (Shell (Lit l # ps)) = (take 12 l = ''npm install '')"
| "installs a = False"

fun chmods :: "action \<Rightarrow> bool" where
  "chmods (Shell (Lit l # ps)) = (take 6 l = ''chmod '')"
| "chmods a = False"

text \<open>
  A dependency is version-pinned when a version follows its name after an \<^verbatim>\<open>@\<close>; the
  \<^verbatim>\<open>@\<close> that opens a scoped name is part of the name.
\<close>

definition pinned :: "string \<Rightarrow> bool" where
  "pinned s = (CHR ''@'' \<in> set (drop 1 s))"


text \<open>A folder name that denotes a directory entry of its own.\<close>

definition simple_name :: "string \<Rightarrow> bool" where
  "simple_name F = (F \<noteq> [] \<and> F \<noteq> ''.'' \<and> F \<noteq> ''..'' \<and> CHR ''/'' \<notin> set F)"

subsection \<open>Concrete worlds\<close>

text \<open>A world in which every process exits with 0, no call fails and the tools write nothing.\<close>

definition quiet_env :: env where
  "quiet_env = \<lparr>exit_code = (\<lambda>h c. 0), fs_fault = (\<lambda>h a. None), tool = (\<lambda>c d fs. fs)\<rparr>"

text \<open>The same world, except that the package installation exits with 1.\<close>

definition offline_env :: env where
  "offline_env = \<lparr>exit_code = (\<lambda>h c. if c = [Lit ''npm install --save-dev '', Args devDependencies] then 1 else 0),
     fs_fault = (\<lambda>h a. None), tool = (\<lambda>c d fs. fs)\<rparr>"

definition start :: world where
  "start = \<lparr>cwd = [''work''], fsys = [[''work''] \<mapsto> Dir], trace = []\<rparr>"

text \<open>
  The same starting point with a project directory left behind by earlier work.
\<close>

definition leftover :: world where
  "leftover = \<lparr>cwd = [''work''],
     fsys = [[''work''] \<mapsto> Dir, [''work'', ''demo''] \<mapsto> Dir,
             [''work'', ''demo'', ''package.json''] \<mapsto> File (Text ''old'') False,
             [''work'', ''demo'', ''notes.txt''] \<mapsto> File (Text ''keep me'') False],
     trace = []\<rparr>"

section \<open>Sequencing\<close>

lemma perform_threw: "perform E a w = Threw e w' \<Longrightarrow> w' = attempt a w"
  by (cases a) (auto simp: fs_call_def split: option.splits sum.splits if_splits)

lemma perform_ok_trace: "perform E a w = Ok w' \<Longrightarrow> trace w' = trace w @ [a]"
  by (cases a) (auto simp: attempt_def fs_call_def split: option.splits sum.splits if_splits)

lemma run_actions_append:
  "run_actions E (as @ bs) w =
     (case run_actions E as w of Ok w' \<Rightarrow> run_actions E bs w' | Threw e w' \<Rightarrow> Threw e w')"
  by (induction as arbitrary: w) (auto split: outcome.splits)

lemma run_stages_concat: "run_stages E ss w = run_actions E (concat ss) w"
  by (induction ss arbitrary: w) (auto simp: run_actions_append split: outcome.splits)

lemma run_actions_ok_trace: "run_actions E as w = Ok w' \<Longrightarrow> trace w' = trace w @ as"
proof (induction as arbitrary: w)
  case Nil
  then show ?case by simp
next
  case (Cons a as)
  then obtain v where v: "perform E a w = Ok v" and rest: "run_actions E as v = Ok w'"
    by (auto split: outcome.splits)
  from Cons.IH [OF rest] perform_ok_trace [OF v] show ?case by simp
qed

lemma run_actions_threw:
  "run_actions E as w = Threw e w' \<Longrightarrow>
     \<exists>k v. k < length as \<and> run_actions E (take k as) w = Ok v \<and> perform E (as ! k) v = Threw e w'"
proof (induction as arbitrary: w)
  case Nil
  then show ?case by simp
next
  case (Cons a as)
  show ?case
  proof (cases "perform E a w")
    case (Ok v)
    with Cons.prems have "run_actions E as v = Threw e w'" by simp
    from Cons.IH [OF this] obtain k u where
      "k < length as" "run_actions E (take k as) v = Ok u" "perform E (as ! k) u = Threw e w'"
      by blast
    with Ok have "Suc k < length (a # as) \<and> run_actions E (take (Suc k) (a # as)) w = Ok u
        \<and> perform E ((a # as) ! Suc k) u = Threw e w'"
      by simp
    then show ?thesis by blast
  next
    case (Threw e' v)
    with Cons.prems have "perform E a w = Threw e w'" by simp
    then have "0 < length (a # as) \<and> run_actions E (take 0 (a # as)) w = Ok w
        \<and> perform E ((a # as) ! 0) w = Threw e w'"
      by simp
    then show ?thesis by blast
  qed
qed

lemma run_stages_threw:
  "run_stages E P w = Threw e w' \<Longrightarrow>
     \<exists>n v. n < length P \<and> run_stages E (take n P) w = Ok v \<and> run_actions E (P ! n) v = Threw e w'"
proof (induction P arbitrary: w)
  case Nil
  then show ?case by simp
next
  case (Cons s P)
  show ?case
  proof (cases "run_actions E s w")
    case (Ok v)
    with Cons.prems have "run_stages E P v = Threw e w'" by simp
    from Cons.IH [OF this] obtain n u where
      "n < length P" "run_stages E (take n P) v = Ok u" "run_actions E (P ! n) u = Threw e w'"
      by blast
    with Ok have "Suc n < length (s # P) \<and> run_stages E (take (Suc n) (s # P)) w = Ok u
        \<and> run_actions E ((s # P) ! Suc n) u = Threw e w'"
      by simp
    then show ?thesis by blast
  next
    case (Threw e' v)
    with Cons.prems have "run_actions E s w = Threw e w'" by simp
    then have "0 < length (s # P) \<and> run_stages E (take 0 (s # P)) w = Ok w
        \<and> run_actions E ((s # P) ! 0) w = Threw e w'"
      by simp
    then show ?thesis by blast
  qed
qed

lemma run_stages_from:
  assumes "run_stages E (take n P) w = Ok v"
  shows "run_stages E P w = run_stages E (drop n P) v"
proof -
  have "run_stages E P w = run_actions E (concat (take n P) @ concat (drop n P)) w"
    by (simp add: run_stages_concat flip: concat_append)
  also have "\<dots> = run_actions E (concat (drop n P)) v"
    using assms by (simp add: run_actions_append run_stages_concat)
  finally show ?thesis by (simp add: run_stages_concat)
qed

lemma run_stages_upto:
  assumes "succeeded (run_stages E P w)"
  shows "succeeded (run_stages E (take n P) w)"
proof (cases "run_stages E (take n P) w")
  case (Ok v)
  then show ?thesis by simp
next
  case (Threw e v)
  have "run_stages E P w = run_actions E (concat (take n P) @ concat (drop n P)) w"
    by (simp add: run_stages_concat flip: concat_append)
  with Threw have "run_stages E P w = Threw e v"
    by (simp add: run_actions_append run_stages_concat)
  with assms show ?thesis by simp
qed

lemma succeeded_iff: "succeeded r \<longleftrightarrow> (\<exists>v. r = Ok v)"
  by (cases r) simp_all

lemma length_pipeline: "length (pipeline F) = 10"
  by (simp add: pipeline_def)

lemma bootstrap_ok_trace:
  "bootstrap E F w = Ok w' \<Longrightarrow> trace w' = trace w @ concat (pipeline F)"
  by (simp add: bootstrap_def run_stages_concat run_actions_ok_trace)

lemma run_effects_ok:
  assumes "succeeded (bootstrap E F w)"
  shows "run_effects E F w = concat (pipeline F)"
proof -
  from assms obtain v where v: "bootstrap E F w = Ok v"
    by (auto simp: succeeded_iff)
  from bootstrap_ok_trace [OF v] v show ?thesis
    by (simp add: run_effects_def)
qed

lemma bootstrap_threw_trace:
  assumes "bootstrap E F w = Threw e w'"
  shows "\<exists>n k. n < 10 \<and> k < length (pipeline F ! n) \<and>
           trace w' = trace w @ concat (take n (pipeline F)) @ take (Suc k) (pipeline F ! n)"
proof -
  from assms have "run_stages E (pipeline F) w = Threw e w'" by (simp add: bootstrap_def)
  from run_stages_threw [OF this] obtain n v where
    n: "n < length (pipeline F)" and
    v: "run_stages E (take n (pipeline F)) w = Ok v" and
    f: "run_actions E (pipeline F ! n) v = Threw e w'"
    by blast
  from run_actions_threw [OF f] obtain k u where
    k: "k < length (pipeline F ! n)" and
    u: "run_actions E (take k (pipeline F ! n)) v = Ok u" and
    p: "perform E (pipeline F ! n ! k) u = Threw e w'"
    by blast
  have "trace v = trace w @ concat (take n (pipeline F))"
    using v by (simp add: run_stages_concat run_actions_ok_trace)
  moreover have "trace u = trace v @ take k (pipeline F ! n)"
    using u by (rule run_actions_ok_trace)
  moreover have "trace w' = trace u @ [pipeline F ! n ! k]"
    using perform_threw [OF p] by (simp add: attempt_def)
  ultimately have "trace w' = trace w @ concat (take n (pipeline F)) @ take (Suc k) (pipeline F ! n)"
    using k by (simp add: take_Suc_conv_app_nth)
  with n k show ?thesis by (auto simp: length_pipeline)
qed

section \<open>A run that succeeds\<close>

lemma quiet_run_succeeds: "succeeded (bootstrap quiet_env ''demo'' start)"
  by (simp add: bootstrap_def pipeline_def prepare_def installDependencies_def prepareHusky_def
    prepareSpellChecker_def prepareCommitLint_def prepareLinter_def prepareFormatter_def
    prepareLintStaged_def prepareSemanticRelease_def prepareTest_def quiet_env_def start_def
    attempt_def fs_call_def resolve_def enter_def is_dir_def is_file_def mkdirSync_def put_file_def
    ensureFileSync_def mkdirs_def rm_rf_def chmod_ax_def)

section \<open>Order of the stages\<close>

text \<open>
  C1. Whatever the world does, the effects of a run are the effects of the ten stages in
  the order prepare, install dependencies, hook manager, spell checker, commit linter,
  linter, formatter, staged-file lint, release automation, test runner: a run that
  succeeds performs all of them, stage after stage; a run that fails has performed the
  first \<open>n\<close> stages in full and then an initial part of stage \<open>n\<close>, and nothing else. No
  effect of a stage comes before an effect of an earlier stage.
\<close>

theorem stages_run_in_fixed_order:
  "(\<exists>w'. bootstrap E F w = Ok w' \<and>
       trace w' = trace w @ prepare F @ installDependencies @ prepareHusky @ prepareSpellChecker
         @ prepareCommitLint @ prepareLinter @ prepareFormatter @ prepareLintStaged
         @ prepareSemanticRelease @ prepareTest)
   \<or> (\<exists>e w' n k. bootstrap E F w = Threw e w' \<and> n < 10 \<and> k < length (pipeline F ! n) \<and>
       trace w' = trace w @ concat (take n (pipeline F)) @ take (Suc k) (pipeline F ! n))"
proof (cases "bootstrap E F w")
  case (Ok w')
  from bootstrap_ok_trace [OF this] Ok show ?thesis by (simp add: pipeline_def)
next
  case (Threw e w')
  from bootstrap_threw_trace [OF this] Threw show ?thesis by blast
qed

theorem stages_run_in_fixed_order_witness:
  "\<exists>w'. bootstrap quiet_env ''demo'' start = Ok w' \<and>
     trace w' = trace start @ prepare ''demo'' @ installDependencies @ prepareHusky
       @ prepareSpellChecker @ prepareCommitLint @ prepareLinter @ prepareFormatter
       @ prepareLintStaged @ prepareSemanticRelease @ prepareTest"
  using stages_run_in_fixed_order [of quiet_env "''demo''" start] quiet_run_succeeds
  by auto

section \<open>Failure\<close>

lemma exit_status_threw: "exit_status (Threw e w) = 1"
  by (simp add: exit_status_def)

text \<open>
  C2. Suppose the first \<open>n\<close> stages succeed and stage \<open>n\<close> throws \<open>e\<close>, leaving the world
  \<open>v'\<close>. Then the whole run throws the same \<open>e\<close> in the same world \<open>v'\<close> and the process
  exits with a non-zero status. The error is the one thrown by a single effect of stage
  \<open>n\<close>; \<open>v'\<close> is the world in which that effect was attempted with the attempt added to
  the trace, so neither the file system nor the working directory is touched after the
  failure (nothing is cleaned up), and the trace holds nothing of a later stage. With
  \<open>n = 1\<close> this is the failure of the dependency installation.
\<close>

theorem first_failure_aborts_the_run:
  assumes "n < 10"
    and "before_stage E F w n = Ok v"
    and "run_actions E (pipeline F ! n) v = Threw e v'"
  shows "bootstrap E F w = Threw e v' \<and> exit_status (bootstrap E F w) \<noteq> 0 \<and>
    (\<exists>k u. k < length (pipeline F ! n) \<and>
       run_actions E (take k (pipeline F ! n)) v = Ok u \<and>
       perform E (pipeline F ! n ! k) u = Threw e v' \<and>
       v' = attempt (pipeline F ! n ! k) u \<and>
       trace v' = trace w @ concat (take n (pipeline F)) @ take (Suc k) (pipeline F ! n))"
proof -
  let ?P = "pipeline F"
  from assms(1) have n: "n < length ?P" by (simp add: length_pipeline)
  from assms(2) have v: "run_stages E (take n ?P) w = Ok v" by (simp add: before_stage_def)
  have "drop n ?P = ?P ! n # drop (Suc n) ?P"
    using n by (simp add: Cons_nth_drop_Suc)
  with run_stages_from [OF v] assms(3) have b: "bootstrap E F w = Threw e v'"
    by (simp add: bootstrap_def)
  from run_actions_threw [OF assms(3)] obtain k u where
    k: "k < length (?P ! n)" and
    u: "run_actions E (take k (?P ! n)) v = Ok u" and
    p: "perform E (?P ! n ! k) u = Threw e v'"
    by blast
  have a: "v' = attempt (?P ! n ! k) u" using p by (rule perform_threw)
  have "trace v = trace w @ concat (take n ?P)"
    using v by (simp add: run_stages_concat run_actions_ok_trace)
  moreover have "trace u = trace v @ take k (?P ! n)"
    using u by (rule run_actions_ok_trace)
  ultimately have "trace v' = trace w @ concat (take n ?P) @ take (Suc k) (?P ! n)"
    using k a by (simp add: attempt_def take_Suc_conv_app_nth)
  with b k u p a show ?thesis
    by (auto simp: exit_status_threw)
qed

lemma offline_prepare_succeeds: "succeeded (before_stage offline_env ''demo'' start 1)"
  by (simp add: before_stage_def pipeline_def prepare_def offline_env_def start_def
    attempt_def fs_call_def resolve_def enter_def is_dir_def mkdirSync_def put_file_def rm_rf_def)

theorem first_failure_aborts_the_run_witness:
  "\<exists>v v'. before_stage offline_env ''demo'' start 1 = Ok v \<and>
     run_actions offline_env (pipeline ''demo'' ! 1) v = Threw (ProcessOutput 1) v' \<and>
     bootstrap offline_env ''demo'' start = Threw (ProcessOutput 1) v' \<and>
     exit_status (bootstrap offline_env ''demo'' start) \<noteq> 0"
proof -
  from offline_prepare_succeeds obtain v where v: "before_stage offline_env ''demo'' start 1 = Ok v"
    by (auto simp: succeeded_iff)
  have "\<exists>v'. run_actions offline_env (pipeline ''demo'' ! 1) v = Threw (ProcessOutput 1) v'"
    by (simp add: pipeline_def installDependencies_def offline_env_def)
  then obtain v' where f: "run_actions offline_env (pipeline ''demo'' ! 1) v = Threw (ProcessOutput 1) v'"
    by blast
  have "(1::nat) < 10" by simp
  from first_failure_aborts_the_run [OF this v f] v f show ?thesis by blast
qed

section \<open>The installed packages\<close>

lemma run_actions_trace_prefix:
  "\<exists>m. trace (final (run_actions E as w)) = trace w @ take m as"
proof (cases "run_actions E as w")
  case (Ok v)
  from run_actions_ok_trace [OF this] Ok have "trace (final (run_actions E as w)) = trace w @ take (length as) as"
    by simp
  then show ?thesis by blast
next
  case (Threw e v)
  from run_actions_threw [OF this] obtain k u where
    k: "k < length as" and u: "run_actions E (take k as) w = Ok u" and p: "perform E (as ! k) u = Threw e v"
    by blast
  from run_actions_ok_trace [OF u] perform_threw [OF p] k Threw
  have "trace (final (run_actions E as w)) = trace w @ take (Suc k) as"
    by (simp add: attempt_def take_Suc_conv_app_nth)
  then show ?thesis by blast
qed

lemma filter_take_empty: "filter P xs = [] \<Longrightarrow> filter P (take m xs) = []"
  by (auto simp: filter_empty_conv dest: in_set_takeD)

lemma installs_prepare: "filter installs (prepare F) = []"
  by (simp add: prepare_def)

lemma installs_later:
  "filter installs (concat [prepareHusky, prepareSpellChecker, prepareCommitLint, prepareLinter,
     prepareFormatter, prepareLintStaged, prepareSemanticRelease, prepareTest]) = []"
  by (simp add: prepareHusky_def prepareSpellChecker_def prepareCommitLint_def prepareLinter_def
    prepareFormatter_def prepareLintStaged_def prepareSemanticRelease_def prepareTest_def)

lemma pipeline_unfold:
  "pipeline F = prepare F # installDependencies #
     [prepareHusky, prepareSpellChecker, prepareCommitLint, prepareLinter,
      prepareFormatter, prepareLintStaged, prepareSemanticRelease, prepareTest]"
  by (simp add: pipeline_def)

text \<open>
  C4. The package manager's install command occurs in a run exactly when the prepare
  stage has succeeded, and then exactly once; its package list is the fixed list of 21
  names of the script, in the script's order. The version-pinned entries of that list
  are \<^verbatim>\<open>eslint-config-airbnb-base@latest\<close>, \<^verbatim>\<open>eslint-plugin-import@^2.25.2\<close> and
  \<^verbatim>\<open>eslint@^8.2.0\<close>; no other entry carries a version.
\<close>

theorem install_receives_the_fixed_package_list:
  "filter installs (run_effects E F w) =
     (if succeeded (before_stage E F w 1)
      then [Shell [Lit ''npm install --save-dev '', Args
        [''@commitlint/cli'', ''@commitlint/config-conventional'', ''@semantic-release/changelog'',
         ''@semantic-release/git'', ''@types/jest'', ''cspell'', ''eslint-config-airbnb-base@latest'',
         ''eslint-config-prettier'', ''eslint-plugin-import@^2.25.2'', ''eslint-plugin-markdownlint'',
         ''eslint-plugin-prettier'', ''eslint@^8.2.0'', ''husky'', ''imagemin-lint-staged'', ''jest'',
         ''lint-staged'', ''markdownlint'', ''markdownlint-cli'', ''nodemon'', ''prettier'',
         ''semantic-release'']]]
      else [])
   \<and> filter pinned devDependencies =
       [''eslint-config-airbnb-base@latest'', ''eslint-plugin-import@^2.25.2'', ''eslint@^8.2.0'']"
proof -
  let ?later = "[prepareHusky, prepareSpellChecker, prepareCommitLint, prepareLinter,
      prepareFormatter, prepareLintStaged, prepareSemanticRelease, prepareTest]"
  let ?cmd = "Shell [Lit ''npm install --save-dev '', Args devDependencies]"
  have pins: "filter pinned devDependencies =
       [''eslint-config-airbnb-base@latest'', ''eslint-plugin-import@^2.25.2'', ''eslint@^8.2.0'']"
    by (simp add: devDependencies_def pinned_def)
  have one: "before_stage E F w 1 = run_actions E (prepare F) w"
    by (simp add: before_stage_def pipeline_def split: outcome.splits)
  have "filter installs (run_effects E F w) =
     (if succeeded (before_stage E F w 1) then [?cmd] else [])"
  proof (cases "run_actions E (prepare F) w")
    case (Threw e v)
    then have b: "bootstrap E F w = Threw e v"
      by (simp add: bootstrap_def pipeline_unfold)
    from run_actions_trace_prefix [of E "prepare F" w] Threw obtain m where
      "trace v = trace w @ take m (prepare F)" by auto
    with b have "run_effects E F w = take m (prepare F)"
      by (simp add: run_effects_def)
    with Threw one show ?thesis
      by (simp add: filter_take_empty installs_prepare)
  next
    case (Ok v)
    have tv: "trace v = trace w @ prepare F"
      using Ok by (rule run_actions_ok_trace)
    let ?v1 = "attempt (PrintStep ''Installing dependencies...'') v"
    have i: "run_actions E installDependencies v = perform E ?cmd ?v1"
      by (cases "perform E ?cmd ?v1") (simp_all add: installDependencies_def del: perform.simps(2))
    show ?thesis
    proof (cases "perform E ?cmd ?v1")
      case (Threw e v2)
      from perform_threw [OF this] have "v2 = attempt ?cmd ?v1" .
      with tv have "trace v2 = trace w @ prepare F @ installDependencies"
        by (simp add: attempt_def installDependencies_def)
      moreover have "run_actions E installDependencies v = Threw e v2"
        by (simp only: i Threw)
      with Ok have "bootstrap E F w = Threw e v2"
        by (simp add: bootstrap_def pipeline_unfold)
      ultimately have "run_effects E F w = prepare F @ installDependencies"
        by (simp add: run_effects_def)
      moreover have "filter installs installDependencies = [?cmd]"
        by (simp add: installDependencies_def)
      ultimately show ?thesis
        using Ok one by (simp add: installs_prepare)
    next
      case (Ok v2)
      from perform_ok_trace [OF this] tv have t2: "trace v2 = trace w @ prepare F @ installDependencies"
        by (simp add: attempt_def installDependencies_def)
      have "run_actions E installDependencies v = Ok v2"
        by (simp only: i Ok)
      with \<open>run_actions E (prepare F) w = Ok v\<close>
      have "bootstrap E F w = run_stages E ?later v2"
        by (simp add: bootstrap_def pipeline_unfold)
      then have b: "bootstrap E F w = run_actions E (concat ?later) v2"
        by (simp only: run_stages_concat)
      from run_actions_trace_prefix [of E "concat ?later" v2] obtain m where
        "trace (final (run_actions E (concat ?later) v2)) = trace v2 @ take m (concat ?later)"
        by blast
      with b t2 have "run_effects E F w = prepare F @ installDependencies @ take m (concat ?later)"
        by (simp add: run_effects_def)
      moreover have "filter installs (take m (concat ?later)) = []"
        using installs_later by (rule filter_take_empty)
      moreover have "filter installs installDependencies = [?cmd]"
        by (simp add: installDependencies_def)
      ultimately show ?thesis
        using \<open>run_actions E (prepare F) w = Ok v\<close> one
        by (simp add: installs_prepare)
    qed
  qed
  with pins show ?thesis by (simp add: devDependencies_def)
qed

theorem install_receives_the_fixed_package_list_witness:
  "filter installs (run_effects quiet_env ''demo'' start) =
     [Shell [Lit ''npm install --save-dev '', Args
        [''@commitlint/cli'', ''@commitlint/config-conventional'', ''@semantic-release/changelog'',
         ''@semantic-release/git'', ''@types/jest'', ''cspell'', ''eslint-config-airbnb-base@latest'',
         ''eslint-config-prettier'', ''eslint-plugin-import@^2.25.2'', ''eslint-plugin-markdownlint'',
         ''eslint-plugin-prettier'', ''eslint@^8.2.0'', ''husky'', ''imagemin-lint-staged'', ''jest'',
         ''lint-staged'', ''markdownlint'', ''markdownlint-cli'', ''nodemon'', ''prettier'',
         ''semantic-release'']]]"
proof -
  have "succeeded (before_stage quiet_env ''demo'' start 1)"
    unfolding before_stage_def using quiet_run_succeeds
    by (simp add: bootstrap_def run_stages_upto)
  with install_receives_the_fixed_package_list [of quiet_env "''demo''" start]
  show ?thesis by simp
qed

section \<open>The files written\<close>












section \<open>The release configuration\<close>



section \<open>The staged-file mapping\<close>





section \<open>Folder names\<close>

lemma components_plain: "CHR ''/'' \<notin> set F \<Longrightarrow> components F = [F]"
  by (induction F) auto

lemma resolve_simple: "simple_name F \<Longrightarrow> resolve d (CHR ''.'' # CHR ''/'' # F) = d @ [F]"
  by (simp add: simple_name_def resolve_def enter_def components_plain)

section \<open>The hook files\<close>

lemma chmod_after_write:
  assumes "run_actions E [WriteFileSync p s, Shell [Lit (''chmod a+x '' @ p)]] u = Ok v"
  shows "fsys v (resolve (cwd v) p) = Some (File (Text s) True) \<and> cwd v = cwd u"
  using assms
  by (auto simp: fs_call_def attempt_def put_file_def chmod_ax_def
      split: option.splits sum.splits if_splits outcome.splits)

lemma chmods_pipeline:
  "filter chmods (concat (pipeline F)) =
     [Shell [Lit ''chmod a+x ./.husky/commit-msg''], Shell [Lit ''chmod a+x ./.husky/pre-commit'']]"
  by (simp add: pipeline_def prepare_def installDependencies_def prepareHusky_def
    prepareSpellChecker_def prepareCommitLint_def prepareLinter_def prepareFormatter_def
    prepareLintStaged_def prepareSemanticRelease_def prepareTest_def)

lemma before_stage_ok:
  assumes "succeeded (bootstrap E F w)"
  shows "\<exists>v. before_stage E F w n = Ok v"
  using assms run_stages_upto [of E "pipeline F" w n]
  by (simp add: bootstrap_def before_stage_def succeeded_iff)

text \<open>
  C5. In a successful run, when the commit-linter stage has completed the file
  \<^verbatim>\<open>.husky/commit-msg\<close> of the project directory holds the hook script and is executable,
  and when the staged-file stage has completed the same holds for \<^verbatim>\<open>.husky/pre-commit\<close>.
  The run issues exactly two \<^verbatim>\<open>chmod\<close> commands, one per hook file, each as the last
  effect of its stage.
\<close>

theorem hooks_are_made_executable:
  assumes "succeeded (bootstrap E F w)"
  shows "(\<exists>v. before_stage E F w 5 = Ok v \<and>
           fsys v (cwd v @ [''.husky'', ''commit-msg'']) = Some (File (Text commit_msg_hook) True))
     \<and> (\<exists>v. before_stage E F w 8 = Ok v \<and>
           fsys v (cwd v @ [''.husky'', ''pre-commit'']) = Some (File (Text pre_commit_hook) True))
     \<and> filter chmods (run_effects E F w) =
         [Shell [Lit ''chmod a+x ./.husky/commit-msg''], Shell [Lit ''chmod a+x ./.husky/pre-commit'']]
     \<and> last (pipeline F ! 4) = Shell [Lit ''chmod a+x ./.husky/commit-msg'']
     \<and> last (pipeline F ! 7) = Shell [Lit ''chmod a+x ./.husky/pre-commit'']"
proof -
  from before_stage_ok [OF assms] obtain v5 where v5: "before_stage E F w 5 = Ok v5" by blast
  from before_stage_ok [OF assms] obtain v8 where v8: "before_stage E F w 8 = Ok v8" by blast
  let ?c = "[WriteFileSync ''./.husky/commit-msg'' commit_msg_hook,
             Shell [Lit (''chmod a+x '' @ ''./.husky/commit-msg'')]]"
  let ?p = "[WriteFileSync ''./.husky/pre-commit'' pre_commit_hook,
             Shell [Lit (''chmod a+x '' @ ''./.husky/pre-commit'')]]"
  have "concat (take 5 (pipeline F)) = (concat (take 4 (pipeline F)) @ take 4 prepareCommitLint) @ ?c"
    by (simp add: pipeline_def prepareCommitLint_def)
  with v5 have "run_actions E ((concat (take 4 (pipeline F)) @ take 4 prepareCommitLint) @ ?c) w = Ok v5"
    by (simp only: before_stage_def run_stages_concat)
  then obtain u5 where "run_actions E ?c u5 = Ok v5"
    unfolding run_actions_append [of E _ ?c] by (auto split: outcome.splits)
  from chmod_after_write [OF this, THEN conjunct1]
  have h5: "fsys v5 (cwd v5 @ [''.husky'', ''commit-msg'']) = Some (File (Text commit_msg_hook) True)"
    by (simp add: resolve_def enter_def)
  have "concat (take 8 (pipeline F)) = (concat (take 7 (pipeline F)) @ take 4 prepareLintStaged) @ ?p"
    by (simp add: pipeline_def prepareLintStaged_def)
  with v8 have "run_actions E ((concat (take 7 (pipeline F)) @ take 4 prepareLintStaged) @ ?p) w = Ok v8"
    by (simp only: before_stage_def run_stages_concat)
  then obtain u8 where "run_actions E ?p u8 = Ok v8"
    unfolding run_actions_append [of E _ ?p] by (auto split: outcome.splits)
  from chmod_after_write [OF this, THEN conjunct1]
  have h8: "fsys v8 (cwd v8 @ [''.husky'', ''pre-commit'']) = Some (File (Text pre_commit_hook) True)"
    by (simp add: resolve_def enter_def)
  have "filter chmods (run_effects E F w) =
         [Shell [Lit ''chmod a+x ./.husky/commit-msg''], Shell [Lit ''chmod a+x ./.husky/pre-commit'']]"
    by (simp only: run_effects_ok [OF assms] chmods_pipeline)
  moreover have "last (pipeline F ! 4) = Shell [Lit ''chmod a+x ./.husky/commit-msg'']"
    by (simp add: pipeline_def prepareCommitLint_def)
  moreover have "last (pipeline F ! 7) = Shell [Lit ''chmod a+x ./.husky/pre-commit'']"
    by (simp add: pipeline_def prepareLintStaged_def)
  ultimately show ?thesis using v5 h5 v8 h8 by blast
qed

theorem hooks_are_made_executable_witness:
  "(\<exists>v. before_stage quiet_env ''demo'' start 5 = Ok v \<and>
           fsys v (cwd v @ [''.husky'', ''commit-msg'']) = Some (File (Text commit_msg_hook) True))
   \<and> (\<exists>v. before_stage quiet_env ''demo'' start 8 = Ok v \<and>
           fsys v (cwd v @ [''.husky'', ''pre-commit'']) = Some (File (Text pre_commit_hook) True))"
  using hooks_are_made_executable [OF quiet_run_succeeds]
  by blast

section \<open>Running against an existing directory\<close>

lemma rm_rf_agree:
  assumes "\<forall>q. \<not> prefix r q \<longrightarrow> fs1 q = fs2 q"
  shows "rm_rf r fs1 = rm_rf r fs2"
  using assms by (auto simp: rm_rf_def)

lemma prepare_head:
  "concat (pipeline F) =
     [PrintStep ''Preparing ...'', Shell [Lit ''rm -rf ./'', Arg F]] @ drop 2 (concat (pipeline F))"
  by (simp add: pipeline_def prepare_def)

lemma remove_first:
  assumes "simple_name F"
  shows "run_actions E [PrintStep ''Preparing ...'', Shell [Lit ''rm -rf ./'', Arg F]] w =
     (if exit_code E (trace w @ [PrintStep ''Preparing ...'']) [Lit ''rm -rf ./'', Arg F] = 0
      then Ok (w\<lparr>fsys := rm_rf (cwd w @ [F]) (fsys w),
                 trace := trace w @ [PrintStep ''Preparing ...'', Shell [Lit ''rm -rf ./'', Arg F]]\<rparr>)
      else Threw (ProcessOutput (exit_code E (trace w @ [PrintStep ''Preparing ...'']) [Lit ''rm -rf ./'', Arg F]))
             (w\<lparr>trace := trace w @ [PrintStep ''Preparing ...'', Shell [Lit ''rm -rf ./'', Arg F]]\<rparr>))"
  by (simp add: attempt_def resolve_simple [OF assms])

lemma bootstrap_forgets_directory:
  assumes F: "simple_name F"
    and agree: "\<forall>q. \<not> prefix (cwd w @ [F]) q \<longrightarrow> fsys w q = fsys v q"
    and same: "cwd v = cwd w" "trace v = trace w"
    and ok: "bootstrap E F w = Ok w'"
  shows "bootstrap E F v = Ok w'"
proof -
  let ?two = "[PrintStep ''Preparing ...'', Shell [Lit ''rm -rf ./'', Arg F]]"
  let ?rest = "drop 2 (concat (pipeline F))"
  have split: "\<And>x. bootstrap E F x =
      (case run_actions E ?two x of Ok y \<Rightarrow> run_actions E ?rest y | Threw e y \<Rightarrow> Threw e y)"
    unfolding bootstrap_def run_stages_concat
    by (subst prepare_head) (rule run_actions_append)
  have zero: "exit_code E (trace w @ [PrintStep ''Preparing ...'']) [Lit ''rm -rf ./'', Arg F] = 0"
  proof (rule ccontr)
    assume "\<not> ?thesis"
    then have "\<not> succeeded (bootstrap E F w)"
      by (simp only: split remove_first [OF F] if_False outcome.case succeeded.simps not_False_eq_True)
    with ok show False by simp
  qed
  have "rm_rf (cwd w @ [F]) (fsys w) = rm_rf (cwd w @ [F]) (fsys v)"
    using agree by (rule rm_rf_agree)
  then have "w\<lparr>fsys := rm_rf (cwd w @ [F]) (fsys w), trace := trace w @ ?two\<rparr>
      = v\<lparr>fsys := rm_rf (cwd v @ [F]) (fsys v), trace := trace v @ ?two\<rparr>"
    using same by (cases w, cases v) simp
  moreover have "run_actions E ?two w
      = Ok (w\<lparr>fsys := rm_rf (cwd w @ [F]) (fsys w), trace := trace w @ ?two\<rparr>)"
    using zero unfolding remove_first [OF F] by simp
  moreover have "run_actions E ?two v
      = Ok (v\<lparr>fsys := rm_rf (cwd v @ [F]) (fsys v), trace := trace v @ ?two\<rparr>)"
    using zero unfolding remove_first [OF F] same by simp
  ultimately have "run_actions E ?two v = run_actions E ?two w"
    by simp
  then have "bootstrap E F v = bootstrap E F w"
    by (simp only: split)
  with ok show ?thesis by simp
qed


lemma prepare_take3:
  "take 3 (prepare F) =
     [PrintStep ''Preparing ...'', Shell [Lit ''rm -rf ./'', Arg F], MkdirSync (''./'' @ F)]"
  by (simp add: prepare_def)

lemma pipeline_take3:
  "concat (pipeline F) = take 3 (prepare F) @ drop 3 (concat (pipeline F))"
  by (simp add: pipeline_def prepare_def)

lemma recreated_empty:
  assumes F: "simple_name F"
    and u: "run_actions E (take 3 (prepare F)) v = Ok u"
  shows "fsys u = (rm_rf (cwd v @ [F]) (fsys v))(cwd v @ [F] \<mapsto> Dir)"
  using u unfolding prepare_take3
  by (auto simp: fs_call_def mkdirSync_def attempt_def resolve_simple [OF F]
      split: if_splits option.splits sum.splits)

text \<open>
  C7. Let the folder name denote a directory entry, and let two worlds differ only in
  what lies at or below the target directory, as the world before a first run and the
  world that run has left to a new process started in the same place. If the run
  succeeds from one of them, it succeeds from the other with the very same final world:
  nothing of the old directory is read or kept. The run begins by printing its status
  line, removing the target with \<^verbatim>\<open>rm -rf\<close> and creating it again; after these effects
  the target is an empty directory and everything else is as before.
\<close>

theorem rerun_starts_from_an_empty_directory:
  assumes "simple_name F"
    and "cwd v = cwd w" and "trace v = trace w"
    and "\<forall>q. \<not> prefix (cwd w @ [F]) q \<longrightarrow> fsys w q = fsys v q"
    and "bootstrap E F w = Ok w'"
  shows "bootstrap E F v = Ok w'
    \<and> take 3 (run_effects E F v) =
        [PrintStep ''Preparing ...'', Shell [Lit ''rm -rf ./'', Arg F], MkdirSync (''./'' @ F)]
    \<and> (\<exists>u. run_actions E (take 3 (prepare F)) v = Ok u
          \<and> (\<forall>q. prefix (cwd v @ [F]) q \<longrightarrow> fsys u q = (if q = cwd v @ [F] then Some Dir else None))
          \<and> (\<forall>q. \<not> prefix (cwd v @ [F]) q \<longrightarrow> fsys u q = fsys v q))"
proof -
  have b: "bootstrap E F v = Ok w'"
    using assms(1) assms(4) assms(2) assms(3) assms(5) by (rule bootstrap_forgets_directory)
  then have "succeeded (bootstrap E F v)" by simp
  then have "run_effects E F v = concat (pipeline F)"
    by (rule run_effects_ok)
  then have t: "take 3 (run_effects E F v) =
        [PrintStep ''Preparing ...'', Shell [Lit ''rm -rf ./'', Arg F], MkdirSync (''./'' @ F)]"
    by (simp add: pipeline_def prepare_def)
  from b have "run_actions E (take 3 (prepare F) @ drop 3 (concat (pipeline F))) v = Ok w'"
    unfolding bootstrap_def run_stages_concat by (subst (asm) pipeline_take3)
  then obtain u where u: "run_actions E (take 3 (prepare F)) v = Ok u"
    unfolding run_actions_append by (auto split: outcome.splits)
  from recreated_empty [OF assms(1) u]
  have "(\<forall>q. prefix (cwd v @ [F]) q \<longrightarrow> fsys u q = (if q = cwd v @ [F] then Some Dir else None))
      \<and> (\<forall>q. \<not> prefix (cwd v @ [F]) q \<longrightarrow> fsys u q = fsys v q)"
    by (auto simp: rm_rf_def)
  with b t u show ?thesis by blast
qed

theorem rerun_starts_from_an_empty_directory_witness:
  "\<exists>w'. bootstrap quiet_env ''demo'' start = Ok w' \<and> bootstrap quiet_env ''demo'' leftover = Ok w'
     \<and> fsys leftover [''work'', ''demo'', ''notes.txt''] \<noteq> fsys start [''work'', ''demo'', ''notes.txt'']"
proof -
  from quiet_run_succeeds obtain w' where ok: "bootstrap quiet_env ''demo'' start = Ok w'"
    by (auto simp: succeeded_iff)
  have F: "simple_name ''demo''"
    by (simp add: simple_name_def)
  have c: "cwd leftover = cwd start" and t: "trace leftover = trace start"
    by (simp_all add: leftover_def start_def)
  have a: "\<forall>q. \<not> prefix (cwd start @ [''demo'']) q \<longrightarrow> fsys start q = fsys leftover q"
    by (auto simp: leftover_def start_def)
  have "fsys leftover [''work'', ''demo'', ''notes.txt''] \<noteq> fsys start [''work'', ''demo'', ''notes.txt'']"
    by (simp add: leftover_def start_def)
  with rerun_starts_from_an_empty_directory [OF F c t a ok] ok show ?thesis
    by blast
qed

section \<open>Command line and environment\<close>


end
